theory Spec2Isabelle
  imports Main
begin

section \<open>Event.hh: events, connections and their revocation handles\<close>

text \<open>
  The development follows \<^verbatim>\<open>src/src/Event.hh\<close>: the base class \<^verbatim>\<open>Event\<close> (the signaled
  flag), the class template \<^verbatim>\<open>EventT\<close> (the map of connections, the list of queued
  removals, \<^verbatim>\<open>Disconnect\<close>, \<^verbatim>\<open>ConnectionCount\<close>, \<^verbatim>\<open>Cleanup\<close>, \<^verbatim>\<open>Signal\<close>) and the
  class \<^verbatim>\<open>Connection\<close> (the handle and its destructor).

  The model is sequential: one thread, so the \<^verbatim>\<open>std::mutex\<close> taken by \<^verbatim>\<open>Cleanup\<close> and the
  atomicity of \<^verbatim>\<open>on\<close> have no counterpart. Undefined behaviour of the C++ (erasing
  through an iterator whose node is gone, calling a member of a destroyed object) is a
  value of type \<open>fault\<close>, an exception thrown by a callback a value \<open>Thrown e\<close>.
\<close>

subsection \<open>Callbacks\<close>

text \<open>
  A callback is a \<^verbatim>\<open>std::function\<close> returning \<^verbatim>\<open>void\<close>. The callbacks considered act
  on the event they are connected to through its public members: they connect a further
  callback (keeping the returned handle alive), disconnect an id (directly, or by dropping
  the handle of that id), call \<^verbatim>\<open>SetSignaled\<close>, and they may throw. A callback is modelled
  as the list of these actions, run in order. What a call does to the arguments it is
  given is a parameter of \<open>Signal\<close>, and the arguments of each call are recorded in its
  call log. Callbacks that call \<^verbatim>\<open>Signal\<close> again from inside a pass, or destroy the event,
  are not covered.
\<close>

datatype 'e action =
    DoConnect "'e action list"
  | DoDisconnect int
  | DoThrow 'e
  | DoSetSignaled bool

primrec action_size :: "'e action \<Rightarrow> nat"
  and actions_size :: "'e action list \<Rightarrow> nat" where
  "action_size (DoConnect cb) = Suc (Suc (actions_size cb))"
| "action_size (DoDisconnect i) = 0"
| "action_size (DoThrow e) = 0"
| "action_size (DoSetSignaled b) = 0"
| "actions_size [] = 0"
| "actions_size (a # as) = action_size a + actions_size as"

text \<open>
  A callback clears the signaled flag when it calls \<^verbatim>\<open>SetSignaled(false)\<close> or connects a
  callback that does.
\<close>

primrec clears_flag :: "'e action \<Rightarrow> bool"
  and clears_flag_any :: "'e action list \<Rightarrow> bool" where
  "clears_flag (DoConnect cb) = clears_flag_any cb"
| "clears_flag (DoDisconnect i) = False"
| "clears_flag (DoThrow e) = False"
| "clears_flag (DoSetSignaled b) = (b = False)"
| "clears_flag_any [] = False"
| "clears_flag_any (a # as) = (clears_flag a \<or> clears_flag_any as)"

text \<open>The actions that change the map of connections or leave by an exception.\<close>

fun touches :: "'e action \<Rightarrow> bool" where
  "touches (DoSetSignaled b) = False"
| "touches a = True"

datatype 'e outcome = Returned | Thrown 'e

datatype fault = InvalidIterator | DanglingEvent

subsection \<open>The data model\<close>

text \<open>\<^verbatim>\<open>EventT::EventConnection\<close>: the on/off flag and the callback.\<close>

record 'e EventConnection =
  on :: bool
  callback :: "'e action list"

text \<open>
  \<^verbatim>\<open>EvtConnectionMap\<close> is a \<^verbatim>\<open>std::map<int, unique_ptr<EventConnection>>\<close>: an association
  list kept in ascending key order. An iterator into the map is represented by the key of
  its node; it is valid while that key is in the map.
\<close>

type_synonym 'e EvtConnectionMap = "(int \<times> 'e EventConnection) list"

text \<open>
  \<^verbatim>\<open>Event\<close> and \<^verbatim>\<open>EventT\<close> in one record: \<open>signaled\<close> of the base class, \<open>connections\<close>
  and \<open>connectionsToRemove\<close> of \<^verbatim>\<open>EventT\<close>.

  Modelled from the spec: the field \<open>nextId\<close>. \<^verbatim>\<open>Event.hh\<close> declares no counter (and no
  \<^verbatim>\<open>Connect\<close>); the spec's TypedEvent has ``nextId: monotonically increasing counter
  (never reused, even across erase)''.
\<close>

record 'e EventT =
  signaled :: bool
  connections :: "'e EvtConnectionMap"
  connectionsToRemove :: "int list"
  nextId :: int

text \<open>
  \<^verbatim>\<open>Connection\<close>: the raw pointer to the event (\<open>None\<close> is \<^verbatim>\<open>nullptr\<close>) and the id. The
  field \<^verbatim>\<open>id\<close> is named \<open>id'\<close> here; \<^verbatim>\<open>creationTime\<close> is never read and is left out.
  Events live in a store from addresses to events; a destroyed event has no entry.
\<close>

type_synonym addr = nat

record Connection =
  event :: "addr option"
  id' :: int

type_synonym 'e store = "addr \<Rightarrow> 'e EventT option"

subsection \<open>Operations on the connection map\<close>

fun map_insert :: "int \<Rightarrow> 'v \<Rightarrow> (int \<times> 'v) list \<Rightarrow> (int \<times> 'v) list" where
  "map_insert k v [] = [(k, v)]"
| "map_insert k v ((k', v') # es) =
     (if k < k' then (k, v) # (k', v') # es
      else if k = k' then (k, v) # es
      else (k', v') # map_insert k v es)"

definition map_erase :: "int \<Rightarrow> (int \<times> 'v) list \<Rightarrow> (int \<times> 'v) list" where
  "map_erase k es = filter (\<lambda>e. fst e \<noteq> k) es"

text \<open>\<^verbatim>\<open>it->second->on = false\<close> for the node with key \<open>i\<close>.\<close>

definition switch_off :: "int \<Rightarrow> 'e EvtConnectionMap \<Rightarrow> 'e EvtConnectionMap" where
  "switch_off i es = map (\<lambda>e. if fst e = i then (fst e, (snd e)\<lparr>on := False\<rparr>) else e) es"

text \<open>
  The position of the range-for loop of \<^verbatim>\<open>Signal\<close>: \<open>None\<close> before the first node,
  \<open>Some k\<close> at the node with key \<open>k\<close>. The nodes still to visit are those behind the
  position, the next one is the first of them.
\<close>

fun behind :: "int option \<Rightarrow> int \<Rightarrow> bool" where
  "behind None k = True"
| "behind (Some p) k = (p < k)"

definition entries_after :: "int option \<Rightarrow> (int \<times> 'v) list \<Rightarrow> (int \<times> 'v) list" where
  "entries_after pos es = filter (\<lambda>e. behind pos (fst e)) es"

subsection \<open>Event and EventT\<close>

text \<open>
  \<^verbatim>\<open>Event::Event()\<close> and \<^verbatim>\<open>EventT::EventT()\<close>: not signaled, no connections. The spec
  gives the counter no initial value; it starts at 0 here, the least id the destructor of
  a handle treats as bound.
\<close>

definition EventT_ctor :: "'e EventT" where
  "EventT_ctor = \<lparr>signaled = False, connections = [], connectionsToRemove = [], nextId = 0\<rparr>"

definition Signaled :: "'e EventT \<Rightarrow> bool" where
  "Signaled ev = signaled ev"

definition SetSignaled :: "bool \<Rightarrow> 'e EventT \<Rightarrow> 'e EventT" where
  "SetSignaled sig ev = ev\<lparr>signaled := sig\<rparr>"

text \<open>\<^verbatim>\<open>ConnectionCount\<close> returns \<^verbatim>\<open>connections.size()\<close> as an \<^verbatim>\<open>unsigned int\<close>.\<close>

definition ConnectionCount :: "'e EventT \<Rightarrow> nat" where
  "ConnectionCount ev = length (connections ev) mod 2 ^ 32"

text \<open>
  \<^verbatim>\<open>Disconnect\<close>: when \<^verbatim>\<open>find\<close> has a node for the id, switch it off and push its iterator
  on the list of connections to remove.
\<close>

definition Disconnect :: "int \<Rightarrow> 'e EventT \<Rightarrow> 'e EventT" where
  "Disconnect i ev =
     (case map_of (connections ev) i of
        None \<Rightarrow> ev
      | Some c \<Rightarrow> ev\<lparr>connections := switch_off i (connections ev),
                     connectionsToRemove := connectionsToRemove ev @ [i]\<rparr>)"

text \<open>
  \<^verbatim>\<open>Cleanup\<close>: erase every queued iterator, then clear the queue. Erasing through an
  iterator whose node has been erased already is undefined behaviour.
\<close>

fun erase_queued :: "int list \<Rightarrow> (int \<times> 'v) list \<Rightarrow> fault + (int \<times> 'v) list" where
  "erase_queued [] es = Inr es"
| "erase_queued (i # queue) es =
     (case map_of es i of
        None \<Rightarrow> Inl InvalidIterator
      | Some c \<Rightarrow> erase_queued queue (map_erase i es))"

definition Cleanup :: "'e EventT \<Rightarrow> fault + 'e EventT" where
  "Cleanup ev =
     (case erase_queued (connectionsToRemove ev) (connections ev) of
        Inl f \<Rightarrow> Inl f
      | Inr es \<Rightarrow> Inr (ev\<lparr>connections := es, connectionsToRemove := []\<rparr>))"

text \<open>
  Modelled from the spec: \<^verbatim>\<open>Connect\<close>, which \<^verbatim>\<open>Event.hh\<close> neither declares nor defines.
  The spec: ``allocates id = nextId++, inserts {enabled: true, callback} into entries,
  returns a new handle bound to (this, id)''. The function returns the id; the handle is
  \<open>Connection_ctor\<close> of the event's address and that id.
\<close>

definition Connect :: "'e action list \<Rightarrow> 'e EventT \<Rightarrow> 'e EventT \<times> int" where
  "Connect cb ev =
     (ev\<lparr>connections := map_insert (nextId ev) \<lparr>on = True, callback = cb\<rparr> (connections ev),
         nextId := nextId ev + 1\<rparr>,
      nextId ev)"

text \<open>Running a callback on the event it was called from.\<close>

fun run_actions :: "'e action list \<Rightarrow> 'e EventT \<Rightarrow> 'e outcome \<times> 'e EventT" where
  "run_actions [] ev = (Returned, ev)"
| "run_actions (DoConnect cb # as) ev = run_actions as (fst (Connect cb ev))"
| "run_actions (DoDisconnect i # as) ev = run_actions as (Disconnect i ev)"
| "run_actions (DoThrow e # as) ev = (Thrown e, ev)"
| "run_actions (DoSetSignaled b # as) ev = run_actions as (SetSignaled b ev)"

text \<open>
  The loop of \<^verbatim>\<open>Signal\<close> walks the live map, so a callback that connects can lengthen
  the walk. It ends all the same: a callback is a finite term, and the callbacks it
  connects are smaller than itself. The weight of a position is the total size of the
  callbacks still to visit.
\<close>

definition weight :: "int option \<Rightarrow> 'e EvtConnectionMap \<Rightarrow> nat" where
  "weight pos es =
     sum_list (map (\<lambda>e. Suc (actions_size (callback (snd e)))) (entries_after pos es))"

lemma weight_switch_off: "weight pos (switch_off i es) = weight pos es"
  unfolding weight_def entries_after_def switch_off_def
  by (induction es) auto

lemma weight_map_insert:
  "weight pos (map_insert k v es) \<le> weight pos es + Suc (actions_size (callback v))"
  unfolding weight_def entries_after_def
  by (induction es) auto

lemma weight_Disconnect:
  "weight pos (connections (Disconnect i ev)) = weight pos (connections ev)"
  by (simp add: Disconnect_def weight_switch_off split: option.splits)

lemma weight_Connect:
  "weight pos (connections (fst (Connect cb ev)))
     \<le> weight pos (connections ev) + Suc (actions_size cb)"
  using weight_map_insert[of pos "nextId ev" "\<lparr>on = True, callback = cb\<rparr>" "connections ev"]
  by (simp add: Connect_def)

lemma weight_run_actions:
  "weight pos (connections (snd (run_actions as ev)))
     \<le> weight pos (connections ev) + actions_size as"
proof (induction as ev rule: run_actions.induct)
  case (2 cb as ev)
  then show ?case using weight_Connect[of pos cb ev] by simp
next
  case (3 i as ev)
  then show ?case by (simp add: weight_Disconnect)
qed (simp_all add: SetSignaled_def)

lemma entries_after_head:
  assumes "entries_after pos es = (k, c) # rest"
  shows "behind pos k"
proof -
  have "(k, c) \<in> set (entries_after pos es)" using assms by simp
  then show ?thesis by (simp add: entries_after_def)
qed

lemma entries_after_next:
  assumes "entries_after pos es = (k, c) # rest"
  shows "entries_after (Some k) es = filter (\<lambda>e. k < fst e) rest"
proof -
  have b: "behind pos k" using assms by (rule entries_after_head)
  have "entries_after (Some k) es = filter (\<lambda>e. k < fst e) (entries_after pos es)"
    unfolding entries_after_def using b
    by (cases pos) (auto intro!: filter_cong)
  then show ?thesis using assms by simp
qed

lemma weight_step:
  assumes "entries_after pos es = (k, c) # rest"
  shows "weight (Some k) es + Suc (actions_size (callback c)) \<le> weight pos es"
proof -
  have "weight (Some k) es
      = sum_list (map (\<lambda>e. Suc (actions_size (callback (snd e)))) (filter (\<lambda>e. k < fst e) rest))"
    using entries_after_next[OF assms] by (simp add: weight_def)
  also have "\<dots> \<le> sum_list (map (\<lambda>e. Suc (actions_size (callback (snd e)))) rest)"
    by (rule sum_list_filter_le_nat)
  finally show ?thesis
    using assms by (simp add: weight_def)
qed

text \<open>
  \<^verbatim>\<open>Signal\<close> calls \<^verbatim>\<open>callback(std::forward<Args>(args)...)\<close> inside the loop, so what one
  call does to the arguments is what the next call is given: a call may move from an
  rvalue, or change an argument it takes by reference. \<open>fwd k a\<close> is what the call of
  the entry with id \<open>k\<close> leaves of the arguments \<open>a\<close>. \<open>by_copy\<close> is the case of
  arguments that every call leaves as they are (an \<^verbatim>\<open>int\<close> passed by value, say).
\<close>

type_synonym 'a forwarding = "int \<Rightarrow> 'a \<Rightarrow> 'a"

definition by_copy :: "'a forwarding" where
  "by_copy k a = a"

text \<open>
  The range-for loop of \<^verbatim>\<open>Signal\<close>, from position \<open>pos\<close>: take the next node of the live
  map; when its \<open>on\<close> flag reads true call its callback with the arguments as they are
  now; an exception leaves the loop at once. \<open>calls\<close> logs each call made, as the id of the
  node and the arguments it was given.
\<close>

function Signal_loop ::
  "'a forwarding \<Rightarrow> 'a \<Rightarrow> int option \<Rightarrow> 'e EventT \<Rightarrow> (int \<times> 'a) list
     \<Rightarrow> 'e outcome \<times> 'e EventT \<times> (int \<times> 'a) list" where
  "Signal_loop fwd args pos ev calls =
     (case entries_after pos (connections ev) of
        [] \<Rightarrow> (Returned, ev, calls)
      | (k, c) # rest \<Rightarrow>
          if on c then
            (case run_actions (callback c) ev of
               (Thrown e, ev') \<Rightarrow> (Thrown e, ev', calls @ [(k, args)])
             | (Returned, ev') \<Rightarrow>
                 Signal_loop fwd (fwd k args) (Some k) ev' (calls @ [(k, args)]))
          else Signal_loop fwd args (Some k) ev calls)"
  by pat_completeness auto
termination
proof (relation "measure (\<lambda>(fwd, args, pos, ev, calls). weight pos (connections ev))",
    goal_cases)
  case 1
  then show ?case by simp
next
  case (2 fwd args pos ev calls x21 rest k c out ev')
  then have "snd (run_actions (callback c) ev) = ev'" by (metis snd_conv)
  with 2 show ?case
    using weight_step[of pos "connections ev" k c rest]
      weight_run_actions[of "Some k" "callback c" ev]
    by simp
next
  case (3 fwd args pos ev calls x21 rest k c)
  then show ?case
    using weight_step[of pos "connections ev" k c rest] by simp
qed

text \<open>\<^verbatim>\<open>Signal\<close>: \<^verbatim>\<open>Cleanup()\<close>, \<^verbatim>\<open>SetSignaled(true)\<close>, then the loop from the first node.\<close>

definition Signal ::
  "'a forwarding \<Rightarrow> 'a \<Rightarrow> 'e EventT \<Rightarrow> fault + ('e outcome \<times> 'e EventT \<times> (int \<times> 'a) list)" where
  "Signal fwd args ev =
     (case Cleanup ev of
        Inl f \<Rightarrow> Inl f
      | Inr ev1 \<Rightarrow> Inr (Signal_loop fwd args None (SetSignaled True ev1) []))"

text \<open>
  The configurations a pass goes through, as position, event, arguments and calls made:
  \<open>pass_reaches fwd cfg cfg'\<close> when the loop started in \<open>cfg\<close> arrives at \<open>cfg'\<close> after
  some iterations, none of which threw.
\<close>

inductive pass_reaches ::
  "'a forwarding \<Rightarrow> int option \<times> 'e EventT \<times> 'a \<times> (int \<times> 'a) list
     \<Rightarrow> int option \<times> 'e EventT \<times> 'a \<times> (int \<times> 'a) list \<Rightarrow> bool"
  for fwd :: "'a forwarding" and cfg :: "int option \<times> 'e EventT \<times> 'a \<times> (int \<times> 'a) list" where
  start: "pass_reaches fwd cfg cfg"
| skip: "pass_reaches fwd cfg (pos, ev, args, calls) \<Longrightarrow>
         entries_after pos (connections ev) = (k, c) # rest \<Longrightarrow> \<not> on c \<Longrightarrow>
         pass_reaches fwd cfg (Some k, ev, args, calls)"
| call: "pass_reaches fwd cfg (pos, ev, args, calls) \<Longrightarrow>
         entries_after pos (connections ev) = (k, c) # rest \<Longrightarrow> on c \<Longrightarrow>
         run_actions (callback c) ev = (Returned, ev') \<Longrightarrow>
         pass_reaches fwd cfg (Some k, ev', fwd k args, calls @ [(k, args)])"

subsection \<open>Connection\<close>

definition Connection_ctor :: "addr option \<Rightarrow> int \<Rightarrow> Connection" where
  "Connection_ctor e i = \<lparr>event = e, id' = i\<rparr>"

text \<open>
  \<^verbatim>\<open>Connection::~Connection\<close>: when the pointer is not null and the id is not negative,
  call \<^verbatim>\<open>Disconnect\<close> through the pointer, then reset both fields. The call through a
  pointer to a destroyed event is undefined behaviour.
\<close>

definition Connection_dtor :: "Connection \<Rightarrow> 'e store \<Rightarrow> fault + Connection \<times> 'e store" where
  "Connection_dtor c st =
     (case event c of
        None \<Rightarrow> Inr (c, st)
      | Some a \<Rightarrow>
          if 0 \<le> id' c then
            (case st a of
               None \<Rightarrow> Inl DanglingEvent
             | Some ev \<Rightarrow> Inr (c\<lparr>id' := - 1, event := None\<rparr>, st(a \<mapsto> Disconnect (id' c) ev)))
          else Inr (c, st))"

text \<open>
  \<^verbatim>\<open>EventT::~EventT\<close>: \<^verbatim>\<open>connections.clear()\<close>, after which the object is gone from the
  store. No outstanding \<^verbatim>\<open>Connection\<close> is touched.
\<close>

definition EventT_dtor :: "addr \<Rightarrow> 'e store \<Rightarrow> 'e store" where
  "EventT_dtor a st = st(a := None)"

text \<open>
  The invariant the spec gives for the queue of removals: no id twice, every id a key of
  the map, every entry it names switched off.
\<close>

definition pending_ok :: "'e EventT \<Rightarrow> bool" where
  "pending_ok ev =
     (distinct (connectionsToRemove ev) \<and>
      list_all (\<lambda>i. case map_of (connections ev) i of None \<Rightarrow> False | Some c \<Rightarrow> \<not> on c)
        (connectionsToRemove ev))"

text \<open>
  States used at concrete inputs. \<open>one_connection\<close>: one entry, id 0, switched on, with a
  callback that does nothing; it is the state \<^verbatim>\<open>Connect\<close> leaves on a fresh event.
  \<open>one_disconnected\<close>: the same after \<^verbatim>\<open>Disconnect(0)\<close>.
\<close>

definition one_connection :: "nat EventT" where
  "one_connection =
     \<lparr>signaled = False,
      connections = [(0, \<lparr>on = True, callback = []\<rparr>)],
      connectionsToRemove = [],
      nextId = 1\<rparr>"

definition one_disconnected :: "nat EventT" where
  "one_disconnected =
     \<lparr>signaled = False,
      connections = [(0, \<lparr>on = False, callback = []\<rparr>)],
      connectionsToRemove = [0],
      nextId = 1\<rparr>"

text \<open>A second connection of the same kind (id 1).\<close>

definition two_connections :: "nat EventT" where
  "two_connections = fst (Connect [] one_connection)"

text \<open>Three connections, the middle one disconnected and still queued.\<close>

definition queued_event :: "nat EventT" where
  "queued_event = Disconnect 1 (fst (Connect [] two_connections))"

text \<open>One connection whose callback connects a further callback when it is called.\<close>

definition connecting_event :: "nat EventT" where
  "connecting_event = fst (Connect [DoConnect []] EventT_ctor)"

text \<open>Three connections; the callback of id 0 disconnects id 1.\<close>

definition disabling_event :: "nat EventT" where
  "disabling_event =
     \<lparr>signaled = False,
      connections = [(0, \<lparr>on = True, callback = [DoDisconnect 1]\<rparr>),
                     (1, \<lparr>on = True, callback = []\<rparr>),
                     (2, \<lparr>on = True, callback = []\<rparr>)],
      connectionsToRemove = [],
      nextId = 3\<rparr>"

text \<open>
  Five connections: id 0 is disconnected and queued, the callback of id 1 disconnects
  id 3, the callback of id 2 connects a callback and then throws 42.
\<close>

definition throwing_event :: "nat EventT" where
  "throwing_event =
     \<lparr>signaled = False,
      connections = [(0, \<lparr>on = False, callback = []\<rparr>),
                     (1, \<lparr>on = True, callback = [DoDisconnect 3]\<rparr>),
                     (2, \<lparr>on = True, callback = [DoConnect [], DoThrow 42]\<rparr>),
                     (3, \<lparr>on = True, callback = []\<rparr>),
                     (4, \<lparr>on = True, callback = []\<rparr>)],
      connectionsToRemove = [0],
      nextId = 5\<rparr>"


section \<open>Properties\<close>

declare Signal_loop.simps [simp del]

lemmas eval_defs = Connect_def EventT_ctor_def Disconnect_def switch_off_def Cleanup_def
  map_erase_def Signal_def SetSignaled_def entries_after_def Signaled_def ConnectionCount_def
  Connection_dtor_def EventT_dtor_def Connection_ctor_def one_connection_def
  one_disconnected_def by_copy_def Signal_loop.simps

subsection \<open>Steps of the loop, and what Cleanup keeps\<close>

lemma Signal_loop_done:
  "entries_after pos (connections ev) = [] \<Longrightarrow>
   Signal_loop fwd args pos ev calls = (Returned, ev, calls)"
  by (simp add: Signal_loop.simps)

lemma Signal_loop_skip:
  "entries_after pos (connections ev) = (k, c) # rest \<Longrightarrow> \<not> on c \<Longrightarrow>
   Signal_loop fwd args pos ev calls = Signal_loop fwd args (Some k) ev calls"
  by (simp add: Signal_loop.simps)

lemma Signal_loop_call:
  "entries_after pos (connections ev) = (k, c) # rest \<Longrightarrow> on c \<Longrightarrow>
   run_actions (callback c) ev = (Returned, ev') \<Longrightarrow>
   Signal_loop fwd args pos ev calls
     = Signal_loop fwd (fwd k args) (Some k) ev' (calls @ [(k, args)])"
  by (simp add: Signal_loop.simps)

lemma Signal_loop_throw:
  "entries_after pos (connections ev) = (k, c) # rest \<Longrightarrow> on c \<Longrightarrow>
   run_actions (callback c) ev = (Thrown e, ev') \<Longrightarrow>
   Signal_loop fwd args pos ev calls = (Thrown e, ev', calls @ [(k, args)])"
  by (simp add: Signal_loop.simps)

lemma entries_after_member:
  "entries_after pos es = (k, c) # rest \<Longrightarrow> (k, c) \<in> set es"
proof -
  assume "entries_after pos es = (k, c) # rest"
  then have "(k, c) \<in> set (entries_after pos es)" by simp
  then show ?thesis by (simp add: entries_after_def)
qed

lemma pass_reaches_Signal_loop:
  "pass_reaches fwd cfg cfg' \<Longrightarrow>
   (case cfg of (p0, e0, a0, c0) \<Rightarrow> Signal_loop fwd a0 p0 e0 c0)
     = (case cfg' of (p, e, a, c) \<Rightarrow> Signal_loop fwd a p e c)"
proof (induction rule: pass_reaches.induct)
  case start
  show ?case by simp
next
  case (skip pos ev args calls k c rest)
  then show ?case using Signal_loop_skip[of pos ev k c rest fwd args calls] by simp
next
  case (call pos ev args calls k c rest ev')
  then show ?case using Signal_loop_call[of pos ev k c rest ev' fwd args calls] by simp
qed

lemma erase_queued_subset: "erase_queued queue es = Inr es' \<Longrightarrow> set es' \<subseteq> set es"
proof (induction queue es rule: erase_queued.induct)
  case (2 i queue es)
  then show ?case
    by (auto simp add: map_erase_def split: option.splits)
qed simp

lemma erase_queued_all:
  "erase_queued queue es = Inr es' \<Longrightarrow> list_all P es \<Longrightarrow> list_all P es'"
  using erase_queued_subset[of queue es es'] by (auto simp add: list_all_iff)

lemma erase_queued_sorted:
  "erase_queued queue es = Inr es' \<Longrightarrow> sorted_wrt (<) (map fst es) \<Longrightarrow>
   sorted_wrt (<) (map fst es')"
proof (induction queue es rule: erase_queued.induct)
  case (2 i queue es)
  then show ?case
    by (auto simp add: map_erase_def sorted_wrt_map sorted_wrt_filter split: option.splits)
qed simp

lemma Cleanup_erases:
  "Cleanup ev = Inr ev1 \<Longrightarrow>
   erase_queued (connectionsToRemove ev) (connections ev) = Inr (connections ev1)
   \<and> nextId ev1 = nextId ev \<and> signaled ev1 = signaled ev"
  by (auto simp add: Cleanup_def split: sum.splits)

subsection \<open>The signaled flag\<close>

lemma map_insert_all: "P (k, v) \<Longrightarrow> list_all P es \<Longrightarrow> list_all P (map_insert k v es)"
  by (induction es) auto

lemma switch_off_callbacks:
  "list_all (\<lambda>e. Q (callback (snd e))) (switch_off i es)
     = list_all (\<lambda>e. Q (callback (snd e))) es"
  by (induction es) (auto simp add: switch_off_def)

lemma run_actions_flag:
  "\<not> clears_flag_any as \<Longrightarrow>
   list_all (\<lambda>e. \<not> clears_flag_any (callback (snd e))) (connections ev) \<Longrightarrow>
   signaled ev \<Longrightarrow>
   signaled (snd (run_actions as ev)) \<and>
   list_all (\<lambda>e. \<not> clears_flag_any (callback (snd e))) (connections (snd (run_actions as ev)))"
proof (induction as ev rule: run_actions.induct)
  case (1 ev)
  then show ?case by simp
next
  case (2 cb as ev)
  let ?ev = "fst (Connect cb ev)"
  have "list_all (\<lambda>e. \<not> clears_flag_any (callback (snd e))) (connections ?ev)"
    using 2(2,3) by (simp add: Connect_def map_insert_all)
  moreover have "signaled ?ev" using 2(4) by (simp add: Connect_def)
  ultimately show ?case using 2(1) 2(2) by simp
next
  case (3 i as ev)
  let ?ev = "Disconnect i ev"
  have "list_all (\<lambda>e. \<not> clears_flag_any (callback (snd e))) (connections ?ev)"
    using 3(3) switch_off_callbacks[of "\<lambda>cb. \<not> clears_flag_any cb" i "connections ev"]
    by (simp add: Disconnect_def split: option.splits)
  moreover have "signaled ?ev" using 3(4) by (simp add: Disconnect_def split: option.splits)
  ultimately show ?case using 3(1) 3(2) by simp
next
  case (4 e as ev)
  then show ?case by simp
next
  case (5 b as ev)
  then show ?case by (simp add: SetSignaled_def)
qed

lemma Signal_loop_flag:
  "list_all (\<lambda>e. \<not> clears_flag_any (callback (snd e))) (connections ev) \<Longrightarrow>
   signaled ev \<Longrightarrow>
   signaled (fst (snd (Signal_loop fwd args pos ev calls)))"
proof (induction fwd args pos ev calls rule: Signal_loop.induct)
  case (1 fwd args pos ev calls)
  show ?case
  proof (cases "entries_after pos (connections ev)")
    case Nil
    then show ?thesis using 1(4) by (simp add: Signal_loop_done)
  next
    case (Cons x rest)
    obtain k c where x: "x = (k, c)" by (cases x)
    have nx: "entries_after pos (connections ev) = (k, c) # rest" using Cons x by simp
    show ?thesis
    proof (cases "on c")
      case False
      then show ?thesis
        using 1(2)[OF Cons x[symmetric] False 1(3) 1(4)]
          Signal_loop_skip[OF nx False, of fwd args calls]
        by simp
    next
      case True
      obtain out ev' where r: "run_actions (callback c) ev = (out, ev')"
        by (cases "run_actions (callback c) ev")
      have "\<not> clears_flag_any (callback c)"
        using entries_after_member[OF nx] 1(3) by (auto simp add: list_all_iff)
      then have f: "signaled ev'"
        "list_all (\<lambda>e. \<not> clears_flag_any (callback (snd e))) (connections ev')"
        using run_actions_flag[of "callback c" ev] 1(3) 1(4) r by simp_all
      show ?thesis
      proof (cases out)
        case Returned
        then show ?thesis
          using 1(1)[OF Cons x[symmetric] True r[symmetric] Returned f(2) f(1)]
            Signal_loop_call[OF nx True, of ev' fwd args calls] r
          by simp
      next
        case (Thrown e)
        then show ?thesis
          using Signal_loop_throw[OF nx True, of e ev' fwd args calls] r f(1) by simp
      qed
    qed
  qed
qed

text \<open>A callback that calls \<^verbatim>\<open>SetSignaled(false)\<close> leaves the flag cleared after the pass.\<close>

lemma callback_clears_flag:
  "Signal by_copy (5::nat)
     \<lparr>signaled = False,
      connections = [(0, \<lparr>on = True, callback = [DoSetSignaled False :: nat action]\<rparr>)],
      connectionsToRemove = [], nextId = 1\<rparr>
   = Inr (Returned,
          \<lparr>signaled = False,
           connections = [(0, \<lparr>on = True, callback = [DoSetSignaled False]\<rparr>)],
           connectionsToRemove = [], nextId = 1\<rparr>,
          [(0, 5)])"
  by (simp add: eval_defs)

text \<open>
  Claim C6, as the code has it. The flag is false after construction, and \<^verbatim>\<open>Signal\<close> sets
  it right after \<^verbatim>\<open>Cleanup\<close>, before the first call. \<^verbatim>\<open>Cleanup\<close>, \<^verbatim>\<open>Connect\<close> and
  \<^verbatim>\<open>Disconnect\<close> leave it as it is (\<^verbatim>\<open>ConnectionCount\<close> is const). The public
  \<^verbatim>\<open>SetSignaled\<close> stores its argument, whatever the flag was; a pass none of whose
  callbacks clears the flag that way ends, by return or by exception, with the flag set.
\<close>

theorem signaled_kept_by_operations:
  "\<not> Signaled (EventT_ctor :: 'e EventT)
   \<and> (Cleanup ev = Inr ev1 \<longrightarrow>
        Signal fwd args ev = Inr (Signal_loop fwd args None (SetSignaled True ev1) [])
        \<and> Signaled (SetSignaled True ev1)
        \<and> Signaled ev1 = Signaled ev)
   \<and> (Signal fwd args ev = Inr (out, ev', calls) \<longrightarrow>
        list_all (\<lambda>e. \<not> clears_flag_any (callback (snd e))) (connections ev) \<longrightarrow>
        Signaled ev')
   \<and> Signaled (fst (Connect cb ev)) = Signaled ev
   \<and> Signaled (Disconnect i ev) = Signaled ev
   \<and> Signaled (SetSignaled b ev) = b"
proof -
  have "Signaled ev'"
    if s: "Signal fwd args ev = Inr (out, ev', calls)"
      and q: "list_all (\<lambda>e. \<not> clears_flag_any (callback (snd e))) (connections ev)"
  proof -
    from s obtain ev1 where c: "Cleanup ev = Inr ev1"
      and l: "Signal_loop fwd args None (SetSignaled True ev1) [] = (out, ev', calls)"
      by (auto simp add: Signal_def split: sum.splits)
    have "list_all (\<lambda>e. \<not> clears_flag_any (callback (snd e)))
            (connections (SetSignaled True ev1))"
      using erase_queued_all[of "connectionsToRemove ev" "connections ev" "connections ev1", OF _ q]
        Cleanup_erases[OF c]
      by (simp add: SetSignaled_def)
    then show ?thesis
      using Signal_loop_flag[of "SetSignaled True ev1" fwd args None "[]"] l
      by (simp add: Signaled_def SetSignaled_def)
  qed
  moreover have "Signaled ev1 = Signaled ev" if "Cleanup ev = Inr ev1"
    using Cleanup_erases[OF that] by (simp add: Signaled_def)
  ultimately show ?thesis
    by (simp add: Signaled_def EventT_ctor_def Signal_def SetSignaled_def Connect_def
        Disconnect_def split: option.splits)
qed

theorem signaled_kept_by_operations_witness:
  "\<not> Signaled (EventT_ctor :: nat EventT)
   \<and> Cleanup one_disconnected = Inr (EventT_ctor\<lparr>nextId := 1\<rparr>)
   \<and> list_all (\<lambda>e. \<not> clears_flag_any (callback (snd e))) (connections one_disconnected)
   \<and> Signal by_copy (5::nat) one_disconnected
       = Inr (Returned, EventT_ctor\<lparr>signaled := True, nextId := 1\<rparr>, [])
   \<and> Signaled (EventT_ctor\<lparr>signaled := True, nextId := 1\<rparr> :: nat EventT)
   \<and> Signaled (fst (Connect [] one_disconnected)) = Signaled one_disconnected
   \<and> Signaled (Disconnect 0 one_connection) = Signaled one_connection
   \<and> Signaled (SetSignaled True one_connection)"
  using signaled_kept_by_operations[of one_disconnected "EventT_ctor\<lparr>nextId := 1\<rparr>" by_copy
      "5::nat" Returned "EventT_ctor\<lparr>signaled := True, nextId := 1\<rparr>" "[]" "[]" 0 True]
    signaled_kept_by_operations[of one_connection _ by_copy "5::nat" _ _ _ "[]" 0 True]
  by (simp add: eval_defs)

text \<open>
  Claim C6, as stated, fails: \<^verbatim>\<open>SetSignaled(false)\<close> is an operation of the event and
  resets the flag after a \<^verbatim>\<open>Signal\<close> has set it.
\<close>

theorem SetSignaled_resets_flag:
  "Signal by_copy (5::nat) one_connection
     = Inr (Returned, one_connection\<lparr>signaled := True\<rparr>, [(0, 5)])
   \<and> Signaled (one_connection\<lparr>signaled := True\<rparr>)
   \<and> \<not> Signaled (SetSignaled False (one_connection\<lparr>signaled := True\<rparr>))"
  by (simp add: eval_defs)

subsection \<open>Disconnect and the queue of removals\<close>

text \<open>
  What \<^verbatim>\<open>Disconnect\<close> does: nothing for an id that is not in the map; for an id in the
  map, whatever its flag, it clears the flag and queues the id. The two example states
  are the ones \<^verbatim>\<open>Connect\<close> and \<^verbatim>\<open>Disconnect\<close> produce from a fresh event.
\<close>

lemma Disconnect_absent: "map_of (connections ev) i = None \<Longrightarrow> Disconnect i ev = ev"
  by (simp add: Disconnect_def)

lemma Disconnect_present:
  "map_of (connections ev) i = Some c \<Longrightarrow>
   Disconnect i ev = ev\<lparr>connections := switch_off i (connections ev),
                         connectionsToRemove := connectionsToRemove ev @ [i]\<rparr>"
  by (simp add: Disconnect_def)

lemma one_connection_reached: "Connect [] EventT_ctor = (one_connection, 0)"
  by (simp add: Connect_def EventT_ctor_def one_connection_def)

lemma one_disconnected_reached: "Disconnect 0 one_connection = one_disconnected"
  by (simp add: Disconnect_def switch_off_def one_connection_def one_disconnected_def)

text \<open>Destroying a bound handle of a live event is \<^verbatim>\<open>Disconnect\<close> of its id.\<close>

lemma Connection_dtor_bound:
  "st a = Some ev \<Longrightarrow> 0 \<le> i \<Longrightarrow>
   Connection_dtor (Connection_ctor (Some a) i) st
     = Inr (Connection_ctor None (- 1), st(a \<mapsto> Disconnect i ev))"
  by (simp add: Connection_dtor_def Connection_ctor_def)

text \<open>
  Claim C2 at the input where the code departs from it: id 0 is in the map with its flag
  already off and is queued once. \<^verbatim>\<open>Disconnect(0)\<close> has no test of the flag: it queues
  the iterator a second time, so the state changes.
\<close>

theorem Disconnect_disabled_entry_queues_again:
  "map_of (connections one_disconnected) 0 = Some \<lparr>on = False, callback = []\<rparr>
   \<and> connectionsToRemove one_disconnected = [0]
   \<and> Disconnect 0 one_disconnected = one_disconnected\<lparr>connectionsToRemove := [0, 0]\<rparr>
   \<and> Disconnect 0 one_disconnected \<noteq> one_disconnected"
  by (simp add: eval_defs)

text \<open>
  Claim C3 at the same input: the invariant of the queue holds before \<^verbatim>\<open>Disconnect(0)\<close>
  and not after it, the id being queued twice.
\<close>

theorem Disconnect_breaks_pending_ok:
  "pending_ok one_disconnected \<and> \<not> pending_ok (Disconnect 0 one_disconnected)"
  by (simp add: eval_defs pending_ok_def)

text \<open>
  Claim C1 at the input where the code departs from it. The event at address 0 has one
  connection, id 0, and \<open>Connection_ctor (Some 0) 0\<close> is its handle. Destroying the handle
  alone leaves the state \<^verbatim>\<open>Disconnect(0)\<close> alone leaves, id 0 queued once. Both
  revocations, in either order, leave id 0 queued twice. The next \<^verbatim>\<open>Signal\<close> returns in
  the first state and erases through an invalid iterator in the second.
\<close>

theorem double_revocation_queues_twice:
  "Connection_dtor (Connection_ctor (Some 0) 0) [0 \<mapsto> one_connection]
     = Inr (Connection_ctor None (- 1), [0 \<mapsto> one_disconnected])
   \<and> Disconnect 0 one_connection = one_disconnected
   \<and> Connection_dtor (Connection_ctor (Some 0) 0) [0 \<mapsto> Disconnect 0 one_connection]
     = Inr (Connection_ctor None (- 1),
            [0 \<mapsto> one_disconnected\<lparr>connectionsToRemove := [0, 0]\<rparr>])
   \<and> Disconnect 0 one_disconnected = one_disconnected\<lparr>connectionsToRemove := [0, 0]\<rparr>
   \<and> one_disconnected\<lparr>connectionsToRemove := [0, 0]\<rparr> \<noteq> one_disconnected
   \<and> Signal by_copy (5::nat) one_disconnected
     = Inr (Returned,
            \<lparr>signaled = True, connections = [], connectionsToRemove = [], nextId = 1\<rparr>, [])
   \<and> Signal by_copy (5::nat) (one_disconnected\<lparr>connectionsToRemove := [0, 0]\<rparr>)
     = Inl InvalidIterator"
  by (simp add: eval_defs)

subsection \<open>Handles\<close>

text \<open>
  Claim C10. The destructor of a handle whose pointer is null or whose id is negative
  returns with the handle and every event of the store unchanged, and in no other case:
  with a pointer and an id from 0 on it either resets the handle or faults.
\<close>

theorem Connection_dtor_inert_handle:
  "Connection_dtor c st = Inr (c, st) \<longleftrightarrow> (event c = None \<or> id' c < 0)"
  by (cases c) (auto simp add: Connection_dtor_def split: option.splits)

theorem Connection_dtor_inert_handle_witness:
  "Connection_dtor (Connection_ctor None 0) [0 \<mapsto> one_connection]
     = Inr (Connection_ctor None 0, [0 \<mapsto> one_connection])
   \<and> Connection_dtor (Connection_ctor (Some 0) (- 1)) [0 \<mapsto> one_connection]
     = Inr (Connection_ctor (Some 0) (- 1), [0 \<mapsto> one_connection])
   \<and> Connection_dtor (Connection_ctor (Some 0) 0) [0 \<mapsto> one_connection]
     \<noteq> Inr (Connection_ctor (Some 0) 0, [0 \<mapsto> one_connection])"
  using Connection_dtor_inert_handle[of "Connection_ctor None 0" "[0 \<mapsto> one_connection]"]
    Connection_dtor_inert_handle[of "Connection_ctor (Some 0) (- 1)" "[0 \<mapsto> one_connection]"]
    Connection_dtor_inert_handle[of "Connection_ctor (Some 0) 0" "[0 \<mapsto> one_connection]"]
  by (simp add: Connection_ctor_def)

text \<open>
  Claim C4, as the code has it. While the event is in the store, destroying a bound handle
  calls \<^verbatim>\<open>Disconnect\<close> on it and resets the handle. The destructor of the handle tests the
  pointer against null and the id against 0, not whether the event is alive, and the
  destructor of the event reaches no handle: a bound handle destroyed after its event
  calls \<^verbatim>\<open>Disconnect\<close> on the destroyed event. \<^verbatim>\<open>Disconnect\<close> of an id that is not in the
  map changes nothing.
\<close>

theorem handle_destruction_needs_live_event:
  "(st a = Some ev \<longrightarrow> event c = Some a \<longrightarrow> 0 \<le> id' c \<longrightarrow>
      Connection_dtor c st
        = Inr (c\<lparr>id' := - 1, event := None\<rparr>, st(a \<mapsto> Disconnect (id' c) ev)))
   \<and> (event c = Some a \<longrightarrow> 0 \<le> id' c \<longrightarrow>
      Connection_dtor c (EventT_dtor a st) = Inl DanglingEvent)
   \<and> (map_of (connections ev) i = None \<longrightarrow> Disconnect i ev = ev)"
  by (simp add: Connection_dtor_def EventT_dtor_def Disconnect_def)

theorem handle_destruction_needs_live_event_witness:
  "Connection_dtor (Connection_ctor (Some 0) 0) [0 \<mapsto> one_connection]
     = Inr (Connection_ctor None (- 1), [0 \<mapsto> one_disconnected])
   \<and> Connection_dtor (Connection_ctor (Some 0) 0) (EventT_dtor 0 [0 \<mapsto> one_connection])
     = Inl DanglingEvent
   \<and> Disconnect 7 one_connection = one_connection"
  using handle_destruction_needs_live_event[of "[0 \<mapsto> one_connection]" 0 one_connection
      "Connection_ctor (Some 0) 0" 7]
  by (simp add: eval_defs)

text \<open>
  Claim C4, as stated, fails: the event at address 0 is destroyed, then its outstanding
  handle; the destructor of the handle calls \<^verbatim>\<open>Disconnect\<close> through the dangling pointer.
\<close>

theorem handle_destroyed_after_event_faults:
  "Connection_dtor (Connection_ctor (Some 0) 0) (EventT_dtor 0 [0 \<mapsto> one_connection])
     = Inl DanglingEvent"
  by (simp add: eval_defs)

subsection \<open>ConnectionCount\<close>

text \<open>
  Claim C9. \<^verbatim>\<open>ConnectionCount\<close> is the size of the map (below \<open>2 ^ 32\<close> entries, where the
  conversion to \<^verbatim>\<open>unsigned int\<close> keeps the value), and \<^verbatim>\<open>Disconnect\<close> leaves it as it is:
  the queued entries are counted. From a freshly constructed event: the count is 0, then
  1 after \<^verbatim>\<open>Connect\<close> (which hands out id 0), still 1 after \<^verbatim>\<open>Disconnect\<close> of that id, and
  0 in the state the next \<^verbatim>\<open>Signal\<close> leaves, whatever the callback and the arguments.
\<close>

theorem ConnectionCount_counts_pending:
  "(length (connections ev) < 2 ^ 32 \<longrightarrow> ConnectionCount ev = length (connections ev))
   \<and> ConnectionCount (Disconnect i ev) = ConnectionCount ev
   \<and> ConnectionCount (EventT_ctor :: 'e EventT) = 0
   \<and> snd (Connect cb (EventT_ctor :: 'e EventT)) = 0
   \<and> ConnectionCount (fst (Connect cb (EventT_ctor :: 'e EventT))) = 1
   \<and> ConnectionCount (Disconnect 0 (fst (Connect cb (EventT_ctor :: 'e EventT)))) = 1
   \<and> Signal fwd args (Disconnect 0 (fst (Connect cb (EventT_ctor :: 'e EventT))))
       = Inr (Returned, EventT_ctor\<lparr>signaled := True, nextId := 1\<rparr>, [])
   \<and> ConnectionCount (EventT_ctor\<lparr>signaled := True, nextId := 1\<rparr> :: 'e EventT) = 0"
  by (simp add: eval_defs split: option.splits)

theorem ConnectionCount_counts_pending_witness:
  "length (connections queued_event) < 2 ^ 32
   \<and> ConnectionCount queued_event = 3
   \<and> ConnectionCount (Disconnect 0 queued_event) = 3
   \<and> ConnectionCount (fst (Connect [] (EventT_ctor :: nat EventT))) = 1
   \<and> ConnectionCount (Disconnect 0 (fst (Connect [] (EventT_ctor :: nat EventT)))) = 1
   \<and> Signal by_copy (5::nat) (Disconnect 0 (fst (Connect [] (EventT_ctor :: nat EventT))))
       = Inr (Returned, EventT_ctor\<lparr>signaled := True, nextId := 1\<rparr>, [])"
proof -
  have h: "length (connections queued_event) < 2 ^ 32"
    by (simp add: queued_event_def two_connections_def eval_defs)
  have l: "length (connections queued_event) = 3"
    by (simp add: queued_event_def two_connections_def eval_defs)
  note t = ConnectionCount_counts_pending[of queued_event 0 "[]" by_copy "5::nat"]
  have "ConnectionCount queued_event = length (connections queued_event)"
    using t h by blast
  then have c: "ConnectionCount queued_event = 3"
    using l by simp
  have d: "ConnectionCount (Disconnect 0 queued_event) = ConnectionCount queued_event"
    using t by blast
  have e: "ConnectionCount (fst (Connect [] (EventT_ctor :: nat EventT))) = 1
     \<and> ConnectionCount (Disconnect 0 (fst (Connect [] (EventT_ctor :: nat EventT)))) = 1
     \<and> Signal by_copy (5::nat) (Disconnect 0 (fst (Connect [] (EventT_ctor :: nat EventT))))
         = Inr (Returned, EventT_ctor\<lparr>signaled := True, nextId := 1\<rparr>, [])"
    using t by blast
  show ?thesis
    using h c d e by simp
qed

subsection \<open>An exception in a callback\<close>

lemma pass_reaches_flag:
  "pass_reaches fwd cfg cfg' \<Longrightarrow>
   list_all (\<lambda>e. \<not> clears_flag_any (callback (snd e))) (connections (fst (snd cfg))) \<Longrightarrow>
   signaled (fst (snd cfg)) \<Longrightarrow>
   list_all (\<lambda>e. \<not> clears_flag_any (callback (snd e))) (connections (fst (snd cfg')))
   \<and> signaled (fst (snd cfg'))"
proof (induction rule: pass_reaches.induct)
  case start
  then show ?case by simp
next
  case (skip pos ev args calls k c rest)
  then show ?case by simp
next
  case (call pos ev args calls k c rest ev')
  have q: "list_all (\<lambda>e. \<not> clears_flag_any (callback (snd e))) (connections ev)"
    and f: "signaled ev"
    using call.IH call.prems by simp_all
  have "\<not> clears_flag_any (callback c)"
    using entries_after_member[OF call.hyps(2)] q by (auto simp add: list_all_iff)
  then show ?case
    using run_actions_flag[of "callback c" ev] q f call.hyps(4) by simp
qed

text \<open>
  Claim C7. Let the pass, after \<^verbatim>\<open>Cleanup\<close> and \<^verbatim>\<open>SetSignaled(true)\<close>, have gone through
  some iterations without an exception and stand at position \<open>pos\<close> in state \<open>s\<close> with
  the calls \<open>calls\<close> made so far and the arguments as \<open>a\<close>. If the next node is on and
  its callback throws \<open>e\<close>, leaving the event in state \<open>s'\<close>, then \<^verbatim>\<open>Signal\<close> ends with
  that very \<open>e\<close>, the call that threw is the last one made, and the event is left in
  \<open>s'\<close>: nothing done before the exception is undone. In particular the flag is still
  set, unless a callback of the event clears it with \<^verbatim>\<open>SetSignaled(false)\<close>.
\<close>

theorem Signal_propagates_callback_error:
  assumes "Cleanup ev = Inr ev1"
    and "pass_reaches fwd (None, SetSignaled True ev1, args, []) (pos, s, a, calls)"
    and "entries_after pos (connections s) = (k, c) # rest"
    and "on c"
    and "run_actions (callback c) s = (Thrown e, s')"
  shows "Signal fwd args ev = Inr (Thrown e, s', calls @ [(k, a)])
    \<and> (list_all (\<lambda>e. \<not> clears_flag_any (callback (snd e))) (connections ev) \<longrightarrow> Signaled s')"
proof -
  have "Signal_loop fwd args None (SetSignaled True ev1) [] = Signal_loop fwd a pos s calls"
    using pass_reaches_Signal_loop[OF assms(2)] by simp
  also have "\<dots> = (Thrown e, s', calls @ [(k, a)])"
    using assms(3-5) by (rule Signal_loop_throw)
  finally have r: "Signal fwd args ev = Inr (Thrown e, s', calls @ [(k, a)])"
    using assms(1) by (simp add: Signal_def)
  have "Signaled s'"
    if q: "list_all (\<lambda>e. \<not> clears_flag_any (callback (snd e))) (connections ev)"
  proof -
    have "list_all (\<lambda>e. \<not> clears_flag_any (callback (snd e)))
            (connections (SetSignaled True ev1))"
      using erase_queued_all[of "connectionsToRemove ev" "connections ev" "connections ev1", OF _ q]
        Cleanup_erases[OF assms(1)]
      by (simp add: SetSignaled_def)
    then have i: "list_all (\<lambda>e. \<not> clears_flag_any (callback (snd e))) (connections s)"
      "signaled s"
      using pass_reaches_flag[OF assms(2)] by (simp_all add: SetSignaled_def)
    have "\<not> clears_flag_any (callback c)"
      using entries_after_member[OF assms(3)] i(1) by (auto simp add: list_all_iff)
    then show ?thesis
      using run_actions_flag[of "callback c" s] i assms(5) by (simp add: Signaled_def)
  qed
  with r show ?thesis by simp
qed

theorem Signal_propagates_callback_error_witness:
  "Signal by_copy (5::nat) throwing_event
     = Inr (Thrown 42,
            \<lparr>signaled = True,
             connections = [(1, \<lparr>on = True, callback = [DoDisconnect 3]\<rparr>),
                            (2, \<lparr>on = True, callback = [DoConnect [], DoThrow 42]\<rparr>),
                            (3, \<lparr>on = False, callback = []\<rparr>),
                            (4, \<lparr>on = True, callback = []\<rparr>),
                            (5, \<lparr>on = True, callback = []\<rparr>)],
             connectionsToRemove = [3],
             nextId = 6\<rparr>,
            [(1, 5), (2, 5)])
   \<and> list_all (\<lambda>e. \<not> clears_flag_any (callback (snd e))) (connections throwing_event)"
proof -
  let ?c1 = "\<lparr>on = True, callback = [DoDisconnect 3 :: nat action]\<rparr>"
  let ?c2 = "\<lparr>on = True, callback = [DoConnect [], DoThrow (42::nat)]\<rparr>"
  let ?c3 = "\<lparr>on = True, callback = ([] :: nat action list)\<rparr>"
  let ?ev1 = "throwing_event\<lparr>connections := [(1, ?c1), (2, ?c2), (3, ?c3), (4, ?c3)],
                connectionsToRemove := []\<rparr>"
  let ?s = "throwing_event\<lparr>signaled := True,
                connections := [(1, ?c1), (2, ?c2), (3, ?c3\<lparr>on := False\<rparr>), (4, ?c3)],
                connectionsToRemove := [3]\<rparr>"
  let ?s' = "?s\<lparr>connections := [(1, ?c1), (2, ?c2), (3, ?c3\<lparr>on := False\<rparr>), (4, ?c3), (5, ?c3)],
                nextId := 6\<rparr>"
  have h1: "Cleanup throwing_event = Inr ?ev1"
    by (simp add: throwing_event_def eval_defs)
  have "pass_reaches by_copy (None, SetSignaled True ?ev1, 5::nat, [])
          (Some 1, ?s, by_copy 1 5, [] @ [(1, 5)])"
    by (rule pass_reaches.call[OF pass_reaches.start, where c = ?c1
          and rest = "[(2, ?c2), (3, ?c3), (4, ?c3)]"])
       (simp_all add: throwing_event_def eval_defs)
  then have h2: "pass_reaches by_copy (None, SetSignaled True ?ev1, 5::nat, [])
      (Some 1, ?s, 5, [(1, 5)])"
    by (simp add: by_copy_def)
  have h3: "entries_after (Some 1) (connections ?s)
      = (2, ?c2) # [(3, ?c3\<lparr>on := False\<rparr>), (4, ?c3)]"
    by (simp add: throwing_event_def eval_defs)
  have h4: "on ?c2" by simp
  have h5: "run_actions (callback ?c2) ?s = (Thrown 42, ?s')"
    by (simp add: throwing_event_def eval_defs)
  have h6: "list_all (\<lambda>e. \<not> clears_flag_any (callback (snd e))) (connections throwing_event)"
    by (simp add: throwing_event_def)
  show ?thesis
    using Signal_propagates_callback_error[OF h1 h2 h3 h4 h5] h6
    by (simp add: throwing_event_def)
qed

subsection \<open>Order of the calls\<close>

lemma behind_trans: "\<not> behind pos k0 \<Longrightarrow> behind pos k \<Longrightarrow> k0 < k"
  by (cases pos) auto

lemma behind_mono: "behind pos k \<Longrightarrow> k < k' \<Longrightarrow> behind pos k'"
  by (cases pos) auto

lemma Signal_loop_sorted:
  "sorted_wrt (<) (map fst calls) \<Longrightarrow> list_all (\<lambda>c. \<not> behind pos (fst c)) calls \<Longrightarrow>
   sorted_wrt (<) (map fst (snd (snd (Signal_loop fwd args pos ev calls))))"
proof (induction fwd args pos ev calls rule: Signal_loop.induct)
  case (1 fwd args pos ev calls)
  show ?case
  proof (cases "entries_after pos (connections ev)")
    case Nil
    then show ?thesis using 1(3) by (simp add: Signal_loop_done)
  next
    case (Cons x rest)
    obtain k c where x: "x = (k, c)" by (cases x)
    have nx: "entries_after pos (connections ev) = (k, c) # rest" using Cons x by simp
    have bk: "behind pos k" using nx by (rule entries_after_head)
    have lt: "\<forall>y\<in>set calls. fst y < k"
      using 1(4) bk behind_trans[of pos _ k] by (auto simp add: list_all_iff)
    have s': "sorted_wrt (<) (map fst (calls @ [(k, args)]))"
      using 1(3) lt by (simp add: sorted_wrt_append)
    have a': "list_all (\<lambda>c. \<not> behind (Some k) (fst c)) (calls @ [(k, args)])"
      using lt by (auto simp add: list_all_iff)
    have a0: "list_all (\<lambda>c. \<not> behind (Some k) (fst c)) calls"
      using lt by (auto simp add: list_all_iff)
    show ?thesis
    proof (cases "on c")
      case False
      then show ?thesis
        using 1(2)[OF Cons x[symmetric] False 1(3) a0]
          Signal_loop_skip[OF nx False, of fwd args calls]
        by simp
    next
      case True
      obtain out ev' where r: "run_actions (callback c) ev = (out, ev')"
        by (cases "run_actions (callback c) ev")
      show ?thesis
      proof (cases out)
        case Returned
        then show ?thesis
          using 1(1)[OF Cons x[symmetric] True r[symmetric] Returned s' a']
            Signal_loop_call[OF nx True, of ev' fwd args calls] r
          by simp
      next
        case (Thrown e)
        then show ?thesis
          using Signal_loop_throw[OF nx True, of e ev' fwd args calls] r s' by simp
      qed
    qed
  qed
qed

lemma Signal_loop_args:
  "fwd = by_copy \<Longrightarrow> list_all (\<lambda>c. snd c = args) calls \<Longrightarrow>
   list_all (\<lambda>c. snd c = args) (snd (snd (Signal_loop fwd args pos ev calls)))"
proof (induction fwd args pos ev calls rule: Signal_loop.induct)
  case (1 fwd args pos ev calls)
  show ?case
  proof (cases "entries_after pos (connections ev)")
    case Nil
    then show ?thesis using 1(4) by (simp add: Signal_loop_done)
  next
    case (Cons x rest)
    obtain k c where x: "x = (k, c)" by (cases x)
    have nx: "entries_after pos (connections ev) = (k, c) # rest" using Cons x by simp
    have same: "fwd k args = args" using 1(3) by (simp add: by_copy_def)
    have a': "list_all (\<lambda>c. snd c = fwd k args) (calls @ [(k, args)])"
      using 1(4) same by simp
    show ?thesis
    proof (cases "on c")
      case False
      then show ?thesis
        using 1(2)[OF Cons x[symmetric] False 1(3) 1(4)]
          Signal_loop_skip[OF nx False, of fwd args calls]
        by simp
    next
      case True
      obtain out ev' where r: "run_actions (callback c) ev = (out, ev')"
        by (cases "run_actions (callback c) ev")
      show ?thesis
      proof (cases out)
        case Returned
        then show ?thesis
          using 1(1)[OF Cons x[symmetric] True r[symmetric] Returned 1(3) a']
            Signal_loop_call[OF nx True, of ev' fwd args calls] r same
          by simp
      next
        case (Thrown e)
        then show ?thesis
          using Signal_loop_throw[OF nx True, of e ev' fwd args calls] r 1(4) by simp
      qed
    qed
  qed
qed

lemma Signal_loop_calls:
  "Signal_loop fwd args pos ev calls = (out, ev', calls') \<Longrightarrow>
   set calls \<subseteq> set calls' \<and> fst ` set calls' \<subseteq> fst ` set calls \<union> {k. behind pos k}"
proof (induction fwd args pos ev calls rule: Signal_loop.induct)
  case (1 fwd args pos ev calls)
  show ?case
  proof (cases "entries_after pos (connections ev)")
    case Nil
    then show ?thesis using 1(3) by (auto simp add: Signal_loop_done)
  next
    case (Cons x rest)
    obtain k c where x: "x = (k, c)" by (cases x)
    have nx: "entries_after pos (connections ev) = (k, c) # rest" using Cons x by simp
    have bk: "behind pos k" using nx by (rule entries_after_head)
    have up: "{k'. behind (Some k) k'} \<subseteq> {k'. behind pos k'}"
      using behind_mono[OF bk] by auto
    show ?thesis
    proof (cases "on c")
      case False
      then have "Signal_loop fwd args (Some k) ev calls = (out, ev', calls')"
        using 1(3) Signal_loop_skip[OF nx False, of fwd args calls] by simp
      then show ?thesis
        using 1(2)[OF Cons x[symmetric] False] up by auto
    next
      case True
      obtain o1 ev1 where r: "run_actions (callback c) ev = (o1, ev1)"
        by (cases "run_actions (callback c) ev")
      show ?thesis
      proof (cases o1)
        case Returned
        then have "Signal_loop fwd (fwd k args) (Some k) ev1 (calls @ [(k, args)])
            = (out, ev', calls')"
          using 1(3) Signal_loop_call[OF nx True, of ev1 fwd args calls] r by simp
        then have "set (calls @ [(k, args)]) \<subseteq> set calls'
          \<and> fst ` set calls' \<subseteq> fst ` set (calls @ [(k, args)]) \<union> {k'. behind (Some k) k'}"
          using 1(1)[OF Cons x[symmetric] True r[symmetric] Returned] by simp
        then show ?thesis using up bk by auto
      next
        case (Thrown e)
        then have "calls' = calls @ [(k, args)]"
          using 1(3) Signal_loop_throw[OF nx True, of e ev1 fwd args calls] r by simp
        then show ?thesis using bk by auto
      qed
    qed
  qed
qed

lemma pass_reaches_behind:
  "pass_reaches fwd cfg cfg' \<Longrightarrow>
   (case cfg of (p0, e0, a0, c0) \<Rightarrow> list_all (\<lambda>c. \<not> behind p0 (fst c)) c0) \<Longrightarrow>
   (case cfg' of (p, e, a, c) \<Rightarrow> list_all (\<lambda>c. \<not> behind p (fst c)) c)"
proof (induction rule: pass_reaches.induct)
  case start
  then show ?case by simp
next
  case (skip pos ev args calls k c rest)
  have bk: "behind pos k" using skip.hyps(2) by (rule entries_after_head)
  have "list_all (\<lambda>c. \<not> behind pos (fst c)) calls" using skip.IH skip.prems by simp
  then have "\<forall>y\<in>set calls. fst y < k"
    using bk behind_trans[of pos _ k] by (auto simp add: list_all_iff)
  then show ?case by (auto simp add: list_all_iff)
next
  case (call pos ev args calls k c rest ev')
  have bk: "behind pos k" using call.hyps(2) by (rule entries_after_head)
  have "list_all (\<lambda>c. \<not> behind pos (fst c)) calls" using call.IH call.prems by simp
  then have "\<forall>y\<in>set calls. fst y < k"
    using bk behind_trans[of pos _ k] by (auto simp add: list_all_iff)
  then show ?case by (auto simp add: list_all_iff)
qed

lemma entries_after_sorted_rest:
  assumes "sorted_wrt (<) (map fst es)" and "entries_after pos es = (k, c) # rest"
  shows "entries_after (Some k) es = rest"
proof -
  have "sorted_wrt (\<lambda>x y. fst x < fst y) (entries_after pos es)"
    using assms(1) unfolding entries_after_def sorted_wrt_map by (rule sorted_wrt_filter)
  then have "\<forall>y\<in>set rest. k < fst y"
    using assms(2) by simp
  then have "filter (\<lambda>e. k < fst e) rest = rest"
    by (simp add: filter_id_conv)
  then show ?thesis using entries_after_next[OF assms(2)] by simp
qed

lemma run_actions_untouched:
  "list_all (\<lambda>a. \<not> touches a) as \<Longrightarrow>
   fst (run_actions as ev) = Returned
   \<and> connections (snd (run_actions as ev)) = connections ev"
proof (induction as ev rule: run_actions.induct)
  case (5 b as ev)
  then show ?case by (simp add: SetSignaled_def)
qed simp_all

lemma Signal_loop_untouched:
  "sorted_wrt (<) (map fst (connections ev)) \<Longrightarrow>
   list_all (\<lambda>e. list_all (\<lambda>a. \<not> touches a) (callback (snd e))) (connections ev) \<Longrightarrow>
   Signal_loop fwd args pos ev calls = (out, ev', calls') \<Longrightarrow>
   out = Returned \<and> connections ev' = connections ev
   \<and> map fst calls'
       = map fst calls
         @ map fst (filter (\<lambda>e. on (snd e)) (entries_after pos (connections ev)))"
proof (induction fwd args pos ev calls rule: Signal_loop.induct)
  case (1 fwd args pos ev calls)
  show ?case
  proof (cases "entries_after pos (connections ev)")
    case Nil
    then show ?thesis using 1(5) by (auto simp add: Signal_loop_done)
  next
    case (Cons x rest)
    obtain k c where x: "x = (k, c)" by (cases x)
    have nx: "entries_after pos (connections ev) = (k, c) # rest" using Cons x by simp
    have rs: "entries_after (Some k) (connections ev) = rest"
      using entries_after_sorted_rest[OF 1(3) nx] .
    show ?thesis
    proof (cases "on c")
      case False
      then have "Signal_loop fwd args (Some k) ev calls = (out, ev', calls')"
        using 1(5) Signal_loop_skip[OF nx False, of fwd args calls] by simp
      then show ?thesis
        using 1(2)[OF Cons x[symmetric] False 1(3) 1(4)] nx rs False by simp
    next
      case True
      have "list_all (\<lambda>a. \<not> touches a) (callback c)"
        using entries_after_member[OF nx] 1(4) by (auto simp add: list_all_iff)
      then obtain ev1 where r: "run_actions (callback c) ev = (Returned, ev1)"
        and c1: "connections ev1 = connections ev"
        using run_actions_untouched[of "callback c" ev]
        by (cases "run_actions (callback c) ev") auto
      have "Signal_loop fwd (fwd k args) (Some k) ev1 (calls @ [(k, args)]) = (out, ev', calls')"
        using 1(5) Signal_loop_call[OF nx True r, of fwd args calls] by simp
      then show ?thesis
        using 1(1)[OF Cons x[symmetric] True r[symmetric] refl] 1(3) 1(4) c1 nx rs True
        by simp
    qed
  qed
qed

lemma Signal_loop_quiet:
  "fwd = by_copy \<Longrightarrow> sorted_wrt (<) (map fst (connections ev)) \<Longrightarrow>
   list_all (\<lambda>e. callback (snd e) = []) (connections ev) \<Longrightarrow>
   Signal_loop fwd args pos ev calls
     = (Returned, ev,
        calls @ map (\<lambda>e. (fst e, args))
                  (filter (\<lambda>e. on (snd e)) (entries_after pos (connections ev))))"
proof (induction fwd args pos ev calls rule: Signal_loop.induct)
  case (1 fwd args pos ev calls)
  show ?case
  proof (cases "entries_after pos (connections ev)")
    case Nil
    then show ?thesis by (simp add: Signal_loop_done)
  next
    case (Cons x rest)
    obtain k c where x: "x = (k, c)" by (cases x)
    have nx: "entries_after pos (connections ev) = (k, c) # rest" using Cons x by simp
    have rs: "entries_after (Some k) (connections ev) = rest"
      using entries_after_sorted_rest[OF 1(4) nx] .
    have same: "fwd k args = args" using 1(3) by (simp add: by_copy_def)
    have q: "callback c = []"
      using entries_after_member[OF nx] 1(5) by (auto simp add: list_all_iff)
    show ?thesis
    proof (cases "on c")
      case False
      then show ?thesis
        using 1(2)[OF Cons x[symmetric] False 1(3) 1(4) 1(5)]
          Signal_loop_skip[OF nx False, of fwd args calls] nx rs
        by simp
    next
      case True
      have r: "run_actions (callback c) ev = (Returned, ev)" using q by simp
      show ?thesis
        using 1(1)[OF Cons x[symmetric] True r[symmetric] refl 1(3) 1(4) 1(5)]
          Signal_loop_call[OF nx True r, of fwd args calls] nx rs True same
        by simp
    qed
  qed
qed

lemma Connect_ids_ascend: "snd (Connect cb ev) < snd (Connect cb' (fst (Connect cb ev)))"
  by (simp add: Connect_def)

text \<open>
  Claim C8. Whatever the callbacks do, the ids of the calls of one \<^verbatim>\<open>Signal\<close> ascend
  strictly, and an entry the walk arrives at is called exactly when its flag is on at that
  moment, with the arguments as they are then; when calls leave the arguments as they
  are (as for the \<^verbatim>\<open>int\<close> of the scenario), every call gets the arguments of the
  \<^verbatim>\<open>Signal\<close>. When the callbacks leave the map alone and do not throw, the ids called
  are exactly those of the entries that \<^verbatim>\<open>Cleanup\<close> left and that are on, in the order of
  the map. Ids ascend in the order of connection. The scenario: \<open>f1\<close> and \<open>f2\<close> are
  connected to a fresh event and get ids 0 and 1; \<^verbatim>\<open>Signal(5)\<close> calls id 0 then id 1
  with 5; after \<^verbatim>\<open>Disconnect(0)\<close>, \<^verbatim>\<open>Signal(7)\<close> calls id 1 only.
\<close>

theorem Signal_calls_in_ascending_id_order:
  "(Signal fwd args ev = Inr (out, ev', calls) \<longrightarrow> sorted_wrt (<) (map fst calls))
   \<and> (Signal by_copy args ev = Inr (out, ev', calls) \<longrightarrow> list_all (\<lambda>c. snd c = args) calls)
   \<and> (Cleanup ev = Inr ev1 \<longrightarrow>
      pass_reaches fwd (None, SetSignaled True ev1, args, []) (pos, s, a, made) \<longrightarrow>
      entries_after pos (connections s) = (k, c) # rest \<longrightarrow>
      Signal fwd args ev = Inr (out, ev', calls) \<longrightarrow>
      ((k, a) \<in> set calls) = on c)
   \<and> (Cleanup ev = Inr ev1 \<longrightarrow> sorted_wrt (<) (map fst (connections ev)) \<longrightarrow>
      list_all (\<lambda>e. list_all (\<lambda>a. \<not> touches a) (callback (snd e))) (connections ev) \<longrightarrow>
      Signal fwd args ev = Inr (out, ev', calls) \<longrightarrow>
      out = Returned \<and> connections ev' = connections ev1
      \<and> map fst calls = map fst (filter (\<lambda>e. on (snd e)) (connections ev1)))
   \<and> (Cleanup ev = Inr ev1 \<longrightarrow> sorted_wrt (<) (map fst (connections ev)) \<longrightarrow>
      list_all (\<lambda>e. callback (snd e) = []) (connections ev) \<longrightarrow>
      Signal by_copy args ev
        = Inr (Returned, SetSignaled True ev1,
               map (\<lambda>e. (fst e, args)) (filter (\<lambda>e. on (snd e)) (connections ev1))))
   \<and> snd (Connect cb ev) < snd (Connect cb' (fst (Connect cb ev)))
   \<and> Connect [] EventT_ctor = (one_connection, 0)
   \<and> Connect [] one_connection = (two_connections, 1)
   \<and> Signal by_copy (5::nat) two_connections
        = Inr (Returned, two_connections\<lparr>signaled := True\<rparr>, [(0, 5), (1, 5)])
   \<and> Signal by_copy (7::nat) (Disconnect 0 (two_connections\<lparr>signaled := True\<rparr>))
        = Inr (Returned,
               \<lparr>signaled = True, connections = [(1, \<lparr>on = True, callback = []\<rparr>)],
                connectionsToRemove = [], nextId = 2\<rparr>,
               [(1, 7)])"
proof -
  have a1: "sorted_wrt (<) (map fst calls)"
    if "Signal fwd args ev = Inr (out, ev', calls)"
  proof -
    from that obtain ev1 where
      "Signal_loop fwd args None (SetSignaled True ev1) [] = (out, ev', calls)"
      by (auto simp add: Signal_def split: sum.splits)
    then show ?thesis
      using Signal_loop_sorted[of "[]" None fwd args "SetSignaled True ev1"] by simp
  qed
  have a2: "list_all (\<lambda>c. snd c = args) calls"
    if "Signal by_copy args ev = Inr (out, ev', calls)"
  proof -
    from that obtain ev1 where
      "Signal_loop by_copy args None (SetSignaled True ev1) [] = (out, ev', calls)"
      by (auto simp add: Signal_def split: sum.splits)
    then show ?thesis
      using Signal_loop_args[of by_copy args "[]" None "SetSignaled True ev1"] by simp
  qed
  have f: "((k, a) \<in> set calls) = on c"
    if c: "Cleanup ev = Inr ev1"
      and p: "pass_reaches fwd (None, SetSignaled True ev1, args, []) (pos, s, a, made)"
      and nx: "entries_after pos (connections s) = (k, c) # rest"
      and sg: "Signal fwd args ev = Inr (out, ev', calls)"
  proof -
    have "Signal_loop fwd args None (SetSignaled True ev1) [] = (out, ev', calls)"
      using sg c by (simp add: Signal_def)
    then have l: "Signal_loop fwd a pos s made = (out, ev', calls)"
      using pass_reaches_Signal_loop[OF p] by simp
    have inv: "list_all (\<lambda>c. \<not> behind pos (fst c)) made"
      using pass_reaches_behind[OF p] by simp
    have bk: "behind pos k" using nx by (rule entries_after_head)
    show ?thesis
    proof (cases "on c")
      case False
      have "Signal_loop fwd a (Some k) s made = (out, ev', calls)"
        using l Signal_loop_skip[OF nx False, of fwd a made] by simp
      then have sub: "fst ` set calls \<subseteq> fst ` set made \<union> {k'. behind (Some k) k'}"
        using Signal_loop_calls[of fwd a "Some k" s made out ev' calls] by simp
      have "\<forall>y\<in>set made. \<not> behind pos (fst y)"
        using inv by (simp add: list_all_iff)
      then have "k \<notin> fst ` set made"
        using bk by auto
      moreover have "k \<notin> {k'. behind (Some k) k'}" by simp
      ultimately have "k \<notin> fst ` set calls"
        using sub by blast
      moreover have "(k, a) \<in> set calls \<Longrightarrow> k \<in> fst ` set calls"
        by (rule image_eqI[of k fst "(k, a)"]) simp_all
      ultimately have "(k, a) \<notin> set calls" by blast
      then show ?thesis using False by simp
    next
      case True
      obtain o1 s1 where r: "run_actions (callback c) s = (o1, s1)"
        by (cases "run_actions (callback c) s")
      have "(k, a) \<in> set calls"
      proof (cases o1)
        case Returned
        then have "Signal_loop fwd (fwd k a) (Some k) s1 (made @ [(k, a)]) = (out, ev', calls)"
          using l Signal_loop_call[OF nx True, of s1 fwd a made] r by simp
        then have "set (made @ [(k, a)]) \<subseteq> set calls"
          using Signal_loop_calls[of fwd "fwd k a" "Some k" s1 "made @ [(k, a)]" out ev' calls]
          by simp
        then show ?thesis by simp
      next
        case (Thrown e)
        then have "calls = made @ [(k, a)]"
          using l Signal_loop_throw[OF nx True, of e s1 fwd a made] r by simp
        then show ?thesis by simp
      qed
      then show ?thesis using True by simp
    qed
  qed
  have b1: "out = Returned \<and> connections ev' = connections ev1
      \<and> map fst calls = map fst (filter (\<lambda>e. on (snd e)) (connections ev1))"
    if c: "Cleanup ev = Inr ev1" and s: "sorted_wrt (<) (map fst (connections ev))"
      and q: "list_all (\<lambda>e. list_all (\<lambda>a. \<not> touches a) (callback (snd e))) (connections ev)"
      and sg: "Signal fwd args ev = Inr (out, ev', calls)"
  proof -
    note e = Cleanup_erases[OF c]
    have l: "Signal_loop fwd args None (SetSignaled True ev1) [] = (out, ev', calls)"
      using sg c by (simp add: Signal_def)
    have "sorted_wrt (<) (map fst (connections (SetSignaled True ev1)))"
      using erase_queued_sorted[of "connectionsToRemove ev" "connections ev" "connections ev1"]
        e s
      by (simp add: SetSignaled_def)
    moreover have "list_all (\<lambda>e. list_all (\<lambda>a. \<not> touches a) (callback (snd e)))
        (connections (SetSignaled True ev1))"
      using erase_queued_all[of "connectionsToRemove ev" "connections ev" "connections ev1", OF _ q]
        e
      by (simp add: SetSignaled_def)
    ultimately show ?thesis
      using Signal_loop_untouched[of "SetSignaled True ev1" fwd args None "[]" out ev' calls] l
      by (simp add: SetSignaled_def entries_after_def)
  qed
  have b2: "Signal by_copy args ev
        = Inr (Returned, SetSignaled True ev1,
               map (\<lambda>e. (fst e, args)) (filter (\<lambda>e. on (snd e)) (connections ev1)))"
    if c: "Cleanup ev = Inr ev1" and s: "sorted_wrt (<) (map fst (connections ev))"
      and q: "list_all (\<lambda>e. callback (snd e) = []) (connections ev)"
  proof -
    note e = Cleanup_erases[OF c]
    have "sorted_wrt (<) (map fst (connections (SetSignaled True ev1)))"
      using erase_queued_sorted[of "connectionsToRemove ev" "connections ev" "connections ev1"]
        e s
      by (simp add: SetSignaled_def)
    moreover have "list_all (\<lambda>e. callback (snd e) = []) (connections (SetSignaled True ev1))"
      using erase_queued_all[of "connectionsToRemove ev" "connections ev" "connections ev1", OF _ q]
        e
      by (simp add: SetSignaled_def)
    ultimately show ?thesis
      using Signal_loop_quiet[of by_copy "SetSignaled True ev1" args None "[]"] c
      by (simp add: Signal_def SetSignaled_def entries_after_def)
  qed
  have d: "Connect [] EventT_ctor = (one_connection, 0)
   \<and> Connect [] one_connection = (two_connections, 1)
   \<and> Signal by_copy (5::nat) two_connections
        = Inr (Returned, two_connections\<lparr>signaled := True\<rparr>, [(0, 5), (1, 5)])
   \<and> Signal by_copy (7::nat) (Disconnect 0 (two_connections\<lparr>signaled := True\<rparr>))
        = Inr (Returned,
               \<lparr>signaled = True, connections = [(1, \<lparr>on = True, callback = []\<rparr>)],
                connectionsToRemove = [], nextId = 2\<rparr>,
               [(1, 7)])"
    by (simp add: two_connections_def eval_defs)
  have g1: "Signal fwd args ev = Inr (out, ev', calls) \<longrightarrow> sorted_wrt (<) (map fst calls)"
    using a1 by (rule impI)
  have g2: "Signal by_copy args ev = Inr (out, ev', calls) \<longrightarrow>
      list_all (\<lambda>c. snd c = args) calls"
    using a2 by (rule impI)
  have g3: "Cleanup ev = Inr ev1 \<longrightarrow>
      pass_reaches fwd (None, SetSignaled True ev1, args, []) (pos, s, a, made) \<longrightarrow>
      entries_after pos (connections s) = (k, c) # rest \<longrightarrow>
      Signal fwd args ev = Inr (out, ev', calls) \<longrightarrow>
      ((k, a) \<in> set calls) = on c"
    using f by (intro impI)
  have g4: "Cleanup ev = Inr ev1 \<longrightarrow> sorted_wrt (<) (map fst (connections ev)) \<longrightarrow>
      list_all (\<lambda>e. list_all (\<lambda>a. \<not> touches a) (callback (snd e))) (connections ev) \<longrightarrow>
      Signal fwd args ev = Inr (out, ev', calls) \<longrightarrow>
      out = Returned \<and> connections ev' = connections ev1
      \<and> map fst calls = map fst (filter (\<lambda>e. on (snd e)) (connections ev1))"
    using b1 by (intro impI)
  have g5: "Cleanup ev = Inr ev1 \<longrightarrow> sorted_wrt (<) (map fst (connections ev)) \<longrightarrow>
      list_all (\<lambda>e. callback (snd e) = []) (connections ev) \<longrightarrow>
      Signal by_copy args ev
        = Inr (Returned, SetSignaled True ev1,
               map (\<lambda>e. (fst e, args)) (filter (\<lambda>e. on (snd e)) (connections ev1)))"
    using b2 by (intro impI)
  note g6 = Connect_ids_ascend[of cb ev cb']
  show ?thesis
    by (rule conjI[OF g1 conjI[OF g2 conjI[OF g3 conjI[OF g4 conjI[OF g5 conjI[OF g6 d]]]]]])
qed

theorem Signal_calls_in_ascending_id_order_witness:
  "Signal (\<lambda>k a. []) ''hi'' queued_event
     = Inr (Returned,
            \<lparr>signaled = True,
             connections = [(0, \<lparr>on = True, callback = []\<rparr>), (2, \<lparr>on = True, callback = []\<rparr>)],
             connectionsToRemove = [], nextId = 3\<rparr>,
            [(0, ''hi''), (2, [])])
   \<and> sorted_wrt (<) (map fst [(0::int, ''hi''), (2, [])])
   \<and> map fst [(0::int, ''hi''), (2, [])]
       = map fst (filter (\<lambda>e. on (snd e))
           [(0::int, \<lparr>on = True, callback = ([] :: nat action list)\<rparr>),
            (2, \<lparr>on = True, callback = []\<rparr>)])
   \<and> Signal by_copy (9::nat) queued_event
     = Inr (Returned,
            \<lparr>signaled = True,
             connections = [(0, \<lparr>on = True, callback = []\<rparr>), (2, \<lparr>on = True, callback = []\<rparr>)],
             connectionsToRemove = [], nextId = 3\<rparr>,
            [(0, 9), (2, 9)])
   \<and> list_all (\<lambda>c. snd c = (9::nat)) [(0::int, 9), (2, 9)]
   \<and> Signal by_copy (9::nat) disabling_event
     = Inr (Returned,
            \<lparr>signaled = True,
             connections = [(0, \<lparr>on = True, callback = [DoDisconnect 1]\<rparr>),
                            (1, \<lparr>on = False, callback = []\<rparr>),
                            (2, \<lparr>on = True, callback = []\<rparr>)],
             connectionsToRemove = [1], nextId = 3\<rparr>,
            [(0, 9), (2, 9)])
   \<and> (1, 9::nat) \<notin> set [(0::int, 9), (2, 9)]
   \<and> snd (Connect [] one_connection) < snd (Connect [] (fst (Connect [] one_connection)))"
proof -
  let ?on = "\<lparr>on = True, callback = ([] :: nat action list)\<rparr>"
  let ?off = "\<lparr>on = False, callback = ([] :: nat action list)\<rparr>"
  let ?c0 = "\<lparr>on = True, callback = [DoDisconnect 1 :: nat action]\<rparr>"
  let ?q1 = "\<lparr>signaled = False, connections = [(0, ?on), (2, ?on)],
            connectionsToRemove = [], nextId = 3\<rparr>"
  let ?q2 = "?q1\<lparr>signaled := True\<rparr>"
  let ?s = "\<lparr>signaled = True, connections = [(0, ?c0), (1, ?off), (2, ?on)],
            connectionsToRemove = [1], nextId = 3\<rparr>"
  have h1: "Cleanup queued_event = Inr ?q1"
    by (simp add: queued_event_def two_connections_def eval_defs)
  have h2: "sorted_wrt (<) (map fst (connections queued_event))"
    by (simp add: queued_event_def two_connections_def eval_defs)
  have h3: "list_all (\<lambda>e. callback (snd e) = []) (connections queued_event)"
    by (simp add: queued_event_def two_connections_def eval_defs)
  have h4: "list_all (\<lambda>e. list_all (\<lambda>a. \<not> touches a) (callback (snd e)))
      (connections queued_event)"
    by (simp add: queued_event_def two_connections_def eval_defs)
  have m: "Signal (\<lambda>k a. []) ''hi'' queued_event = Inr (Returned, ?q2, [(0, ''hi''), (2, [])])"
    by (simp add: queued_event_def two_connections_def eval_defs)
  note M = Signal_calls_in_ascending_id_order[where fwd = "\<lambda>k a. []" and args = "''hi''"
      and ev = queued_event and out = Returned and ev' = ?q2
      and calls = "[(0, ''hi''), (2, [])]" and ?ev1.0 = ?q1]
  have m1: "sorted_wrt (<) (map fst [(0::int, ''hi''), (2, [])])"
    using M[THEN conjunct1] m by simp
  have m2: "map fst [(0::int, ''hi''), (2, [])]
      = map fst (filter (\<lambda>e. on (snd e)) (connections ?q1))"
    using M[THEN conjunct2, THEN conjunct2, THEN conjunct2, THEN conjunct1] h1 h2 h4 m
    by simp
  note N = Signal_calls_in_ascending_id_order[where fwd = by_copy and args = "9::nat"
      and ev = queued_event and out = Returned and ev' = ?q2
      and calls = "[(0, 9), (2, 9)]" and ?ev1.0 = ?q1 and cb = "[]" and cb' = "[]"]
  have n: "Signal by_copy (9::nat) queued_event = Inr (Returned, ?q2, [(0, 9), (2, 9)])"
    using N[THEN conjunct2, THEN conjunct2, THEN conjunct2, THEN conjunct2, THEN conjunct1]
      h1 h2 h3
    by (simp add: SetSignaled_def)
  have n1: "list_all (\<lambda>c. snd c = (9::nat)) [(0::int, 9), (2, 9)]"
    using N[THEN conjunct2, THEN conjunct1] n by simp
  have g1: "Cleanup disabling_event = Inr disabling_event"
    by (simp add: disabling_event_def eval_defs)
  have "pass_reaches by_copy (None, SetSignaled True disabling_event, 9::nat, [])
          (Some 0, ?s, by_copy 0 9, [] @ [(0, 9)])"
    by (rule pass_reaches.call[OF pass_reaches.start, where c = ?c0
          and rest = "[(1, ?on), (2, ?on)]"])
       (simp_all add: disabling_event_def eval_defs)
  then have g2: "pass_reaches by_copy (None, SetSignaled True disabling_event, 9::nat, [])
      (Some 0, ?s, 9, [(0, 9)])"
    by (simp add: by_copy_def)
  have g3: "entries_after (Some 0) (connections ?s) = (1, ?off) # [(2, ?on)]"
    by (simp add: eval_defs)
  have g4: "Signal by_copy (9::nat) disabling_event
      = Inr (Returned, ?s, [(0, 9), (2, 9)])"
    by (simp add: disabling_event_def eval_defs)
  note D = Signal_calls_in_ascending_id_order[where fwd = by_copy and args = "9::nat"
      and ev = disabling_event and out = Returned and ev' = ?s
      and calls = "[(0, 9), (2, 9)]" and ?ev1.0 = disabling_event
      and pos = "Some 0" and s = ?s and a = 9 and made = "[(0, 9)]"
      and k = 1 and c = ?off and rest = "[(2, ?on)]"]
  have d1: "(1, 9::nat) \<notin> set [(0::int, 9), (2, 9)]"
    using D[THEN conjunct2, THEN conjunct2, THEN conjunct1] g1 g2 g3 g4 by simp
  have c: "snd (Connect [] one_connection) < snd (Connect [] (fst (Connect [] one_connection)))"
    using Signal_calls_in_ascending_id_order[where ev = one_connection and cb = "[]"
        and cb' = "[]", THEN conjunct2, THEN conjunct2, THEN conjunct2, THEN conjunct2,
        THEN conjunct2, THEN conjunct1] .
  show ?thesis
    using m m1 m2 n n1 g4 d1 c by simp
qed

subsection \<open>Connections made while a pass is running\<close>

lemma keys_map_insert: "fst ` set (map_insert k v es) = insert k (fst ` set es)"
proof (induction es)
  case Nil
  show ?case by simp
next
  case (Cons x es)
  obtain k' v' where x: "x = (k', v')" by (cases x)
  show ?case unfolding x using Cons by (simp add: insert_commute)
qed

lemma keys_switch_off: "map fst (switch_off i es) = map fst es"
  by (simp add: switch_off_def)

lemma keys_Disconnect: "fst ` set (connections (Disconnect i ev)) = fst ` set (connections ev)"
proof -
  have "map fst (connections (Disconnect i ev)) = map fst (connections ev)"
    by (simp add: Disconnect_def keys_switch_off split: option.splits)
  then have "set (map fst (connections (Disconnect i ev))) = set (map fst (connections ev))"
    by simp
  then show ?thesis by simp
qed

lemma run_actions_keys:
  "n0 \<le> nextId ev \<Longrightarrow>
   fst ` set (connections ev) \<subseteq> K \<union> {k. n0 \<le> k \<and> k < nextId ev} \<Longrightarrow>
   nextId ev \<le> nextId (snd (run_actions as ev)) \<and>
   fst ` set (connections (snd (run_actions as ev)))
     \<subseteq> K \<union> {k. n0 \<le> k \<and> k < nextId (snd (run_actions as ev))}"
proof (induction as ev rule: run_actions.induct)
  case (1 ev)
  then show ?case by simp
next
  case (2 cb as ev)
  let ?ev = "fst (Connect cb ev)"
  have n: "nextId ?ev = nextId ev + 1" by (simp add: Connect_def)
  have k: "fst ` set (connections ?ev) = insert (nextId ev) (fst ` set (connections ev))"
    by (simp add: Connect_def keys_map_insert)
  have "n0 \<le> nextId ?ev" using 2(2) n by simp
  moreover have "fst ` set (connections ?ev) \<subseteq> K \<union> {k. n0 \<le> k \<and> k < nextId ?ev}"
    using 2(2,3) n k by auto
  ultimately show ?case using 2(1) n by fastforce
next
  case (3 i as ev)
  have "nextId (Disconnect i ev) = nextId ev"
    by (simp add: Disconnect_def split: option.splits)
  then show ?case using 3 keys_Disconnect[of i ev] by simp
next
  case (4 e as ev)
  then show ?case by simp
next
  case (5 b as ev)
  then show ?case by (simp add: SetSignaled_def)
qed

lemma Signal_loop_keys:
  "n0 \<le> nextId ev \<Longrightarrow>
   fst ` set (connections ev) \<subseteq> K \<union> {k. n0 \<le> k \<and> k < nextId ev} \<Longrightarrow>
   fst ` set calls \<subseteq> K \<union> {k. n0 \<le> k \<and> k < nextId ev} \<Longrightarrow>
   Signal_loop fwd args pos ev calls = (out, ev', calls') \<Longrightarrow>
   fst ` set calls' \<subseteq> K \<union> {k. n0 \<le> k \<and> k < nextId ev'}"
proof (induction fwd args pos ev calls rule: Signal_loop.induct)
  case (1 fwd args pos ev calls)
  show ?case
  proof (cases "entries_after pos (connections ev)")
    case Nil
    then show ?thesis using 1(5,6) by (simp add: Signal_loop_done)
  next
    case (Cons x rest)
    obtain k c where x: "x = (k, c)" by (cases x)
    have nx: "entries_after pos (connections ev) = (k, c) # rest" using Cons x by simp
    have "(k, c) \<in> set (connections ev)" using nx by (rule entries_after_member)
    then have kin: "k \<in> K \<union> {k. n0 \<le> k \<and> k < nextId ev}"
      using 1(4) by force
    show ?thesis
    proof (cases "on c")
      case False
      then have "Signal_loop fwd args (Some k) ev calls = (out, ev', calls')"
        using 1(6) Signal_loop_skip[OF nx False, of fwd args calls] by simp
      then show ?thesis
        using 1(2)[OF Cons x[symmetric] False 1(3) 1(4) 1(5)] by simp
    next
      case True
      obtain o1 ev1 where r: "run_actions (callback c) ev = (o1, ev1)"
        by (cases "run_actions (callback c) ev")
      have ra: "nextId ev \<le> nextId ev1 \<and>
          fst ` set (connections ev1) \<subseteq> K \<union> {k. n0 \<le> k \<and> k < nextId ev1}"
        using run_actions_keys[OF 1(3) 1(4), of "callback c"] r by simp
      have c1: "fst ` set (calls @ [(k, args)]) \<subseteq> K \<union> {k. n0 \<le> k \<and> k < nextId ev1}"
        using 1(5) kin ra by auto
      have n1: "n0 \<le> nextId ev1" using 1(3) ra by simp
      show ?thesis
      proof (cases o1)
        case Returned
        then have "Signal_loop fwd (fwd k args) (Some k) ev1 (calls @ [(k, args)])
            = (out, ev', calls')"
          using 1(6) Signal_loop_call[OF nx True, of ev1 fwd args calls] r by simp
        then show ?thesis
          using 1(1)[OF Cons x[symmetric] True r[symmetric] Returned n1 _ c1] ra by simp
      next
        case (Thrown e)
        then have "ev' = ev1" "calls' = calls @ [(k, args)]"
          using 1(6) Signal_loop_throw[OF nx True, of e ev1 fwd args calls] r by simp_all
        then show ?thesis using c1 by simp
      qed
    qed
  qed
qed

text \<open>
  Claim C5, as the code has it. The loop walks the live map. The id of every call of a
  pass is an id that was in the map when \<^verbatim>\<open>Signal\<close> was entered, or an id handed out by a
  \<^verbatim>\<open>Connect\<close> during the pass (from the counter at entry up to the counter at exit). When
  no connection is made during the pass, every call is of an entry present at entry.
\<close>

theorem Signal_calls_present_or_connected_in_pass:
  "(Signal fwd args ev = Inr (out, ev', calls) \<longrightarrow>
      list_all (\<lambda>c. fst c \<in> fst ` set (connections ev)
                     \<or> (nextId ev \<le> fst c \<and> fst c < nextId ev')) calls)
   \<and> (Signal fwd args ev = Inr (out, ev', calls) \<longrightarrow> nextId ev' = nextId ev \<longrightarrow>
      list_all (\<lambda>c. fst c \<in> fst ` set (connections ev)) calls)"
proof -
  have a: "list_all (\<lambda>c. fst c \<in> fst ` set (connections ev)
                     \<or> (nextId ev \<le> fst c \<and> fst c < nextId ev')) calls"
    if "Signal fwd args ev = Inr (out, ev', calls)"
  proof -
    from that obtain ev1 where c: "Cleanup ev = Inr ev1"
      and l: "Signal_loop fwd args None (SetSignaled True ev1) [] = (out, ev', calls)"
      by (auto simp add: Signal_def split: sum.splits)
    from c have e: "erase_queued (connectionsToRemove ev) (connections ev) = Inr (connections ev1)"
      and n: "nextId ev1 = nextId ev"
      by (auto simp add: Cleanup_def split: sum.splits)
    let ?s = "SetSignaled True ev1"
    have n0: "nextId ev \<le> nextId ?s" using n by (simp add: SetSignaled_def)
    have k0: "fst ` set (connections ?s)
        \<subseteq> fst ` set (connections ev) \<union> {k. nextId ev \<le> k \<and> k < nextId ?s}"
      using erase_queued_subset[OF e] by (auto simp add: SetSignaled_def)
    have "fst ` set calls \<subseteq> fst ` set (connections ev) \<union> {k. nextId ev \<le> k \<and> k < nextId ev'}"
      using Signal_loop_keys[OF n0 k0 _ l] by simp
    then show ?thesis by (auto simp add: list_all_iff)
  qed
  have b: "list_all (\<lambda>c. fst c \<in> fst ` set (connections ev)) calls"
    if s: "Signal fwd args ev = Inr (out, ev', calls)" and n: "nextId ev' = nextId ev"
  proof -
    have "\<forall>c\<in>set calls. fst c \<in> fst ` set (connections ev)
                     \<or> (nextId ev \<le> fst c \<and> fst c < nextId ev')"
      using a[OF s] by (simp add: list_all_iff)
    then have "\<forall>c\<in>set calls. fst c \<in> fst ` set (connections ev)"
      using n by fastforce
    then show ?thesis by (simp add: list_all_iff)
  qed
  show ?thesis using a b by blast
qed


theorem Signal_calls_present_or_connected_in_pass_witness:
  "Signal by_copy (5::nat) connecting_event
       = Inr (Returned,
              \<lparr>signaled = True,
               connections = [(0, \<lparr>on = True, callback = [DoConnect []]\<rparr>),
                              (1, \<lparr>on = True, callback = []\<rparr>)],
               connectionsToRemove = [], nextId = 2\<rparr>,
              [(0, 5), (1, 5)])
   \<and> list_all (\<lambda>c. fst c \<in> fst ` set (connections connecting_event)
                     \<or> (nextId connecting_event \<le> fst c \<and> fst c < 2)) [(0, 5::nat), (1, 5)]
   \<and> Signal by_copy (5::nat) one_connection
       = Inr (Returned, one_connection\<lparr>signaled := True\<rparr>, [(0, 5)])
   \<and> nextId (one_connection\<lparr>signaled := True\<rparr>) = nextId one_connection
   \<and> list_all (\<lambda>c. fst c \<in> fst ` set (connections one_connection)) [(0, 5::nat)]"
  using Signal_calls_present_or_connected_in_pass[of by_copy "5::nat" connecting_event Returned
      "\<lparr>signaled = True,
        connections = [(0, \<lparr>on = True, callback = [DoConnect []]\<rparr>),
                       (1, \<lparr>on = True, callback = []\<rparr>)],
        connectionsToRemove = [], nextId = 2\<rparr>" "[(0, 5), (1, 5)]"]
    Signal_calls_present_or_connected_in_pass[of by_copy "5::nat" one_connection Returned "one_connection\<lparr>signaled := True\<rparr>" "[(0, 5)]"]
  by (simp add: connecting_event_def eval_defs)


text \<open>
  Claim C5, as stated, fails: the only entry at entry is id 0; its callback connects a
  callback, which gets id 1 and is called by the same pass.
\<close>

theorem connection_made_in_pass_is_invoked:
  "fst ` set (connections connecting_event) = {0}
   \<and> Signal by_copy (5::nat) connecting_event
       = Inr (Returned,
              \<lparr>signaled = True,
               connections = [(0, \<lparr>on = True, callback = [DoConnect []]\<rparr>),
                              (1, \<lparr>on = True, callback = []\<rparr>)],
               connectionsToRemove = [], nextId = 2\<rparr>,
              [(0, 5), (1, 5)])"
  by (simp add: connecting_event_def eval_defs)


end
